theory Spec2Isabelle
  imports Main "HOL-Library.Multiset"
begin

section \<open>Error values\<close>

text \<open>
  A value of Go's interface type \<^verbatim>\<open>error\<close> is the nil interface, an error made by a
  caller of the package (opaque, of type \<open>'a\<close>: the error object itself, so that equal
  values are the same object), or the composite that the standard library's
  \<^verbatim>\<open>errors.Join\<close> builds around a list of errors.
\<close>

datatype 'a error = ErrNil | Err 'a | JoinError "'a error list"

fun is_nil :: "'a error \<Rightarrow> bool" where
  "is_nil ErrNil = True"
| "is_nil (Err x) = False"
| "is_nil (JoinError es) = False"

text \<open>
  \<^verbatim>\<open>errors.Join(errs...)\<close> of the standard library: it counts the non-nil values,
  returns nil when there is none, and otherwise returns a join error holding the non-nil
  values in their order ("Any nil error values are discarded. Join returns nil if every
  value in errs is nil.").
\<close>

definition errors_Join :: "'a error list \<Rightarrow> 'a error" where
  "errors_Join errs =
     (let n = length (filter (\<lambda>e. \<not> is_nil e) errs)
      in if n = 0 then ErrNil else JoinError (filter (\<lambda>e. \<not> is_nil e) errs))"

text \<open>The errors a value reports through \<^verbatim>\<open>Unwrap() []error\<close>.\<close>

fun Unwrap :: "'a error \<Rightarrow> 'a error list" where
  "Unwrap (JoinError es) = es"
| "Unwrap ErrNil = []"
| "Unwrap (Err x) = []"

section \<open>Goroutines and the package state\<close>

text \<open>
  Where \<^verbatim>\<open>WaitForExit\<close> and \<^verbatim>\<open>ExitReason\<close> hand their result: to the
  caller of the package, or to \<^verbatim>\<open>waitForInterruptRoutine\<close> (which made channel \<open>c\<close>).
\<close>

datatype cont = ToCaller | ToBridge nat

text \<open>
  What a finished goroutine has returned; \<open>RPanic\<close> is the run-time panic of an index
  out of range.
\<close>

datatype 'a result = RUnit | RBool bool | RError "'a error" | RPanic

text \<open>
  The program counter of a goroutine: one constructor per atomic action of
  \<^verbatim>\<open>coordinated_exit.go\<close>, named after the function it belongs to.
\<close>

datatype 'a pc =
    SE_load                         \<comment> \<open>ShouldExit, line 26\<close>
  | ER_lock cont                    \<comment> \<open>ExitReason, line 31\<close>
  | ER_read cont                    \<comment> \<open>lines 32, 36 and 40, under the mutex\<close>
  | ER_unlock "'a error" cont       \<comment> \<open>lines 33 and 41, and the return that follows\<close>
  | ER_unlock1 cont                 \<comment> \<open>line 37\<close>
  | ER_index cont                   \<comment> \<open>line 38: the entry is read after the unlock\<close>
  | EWO_store                       \<comment> \<open>ExitWithoutError, line 49\<close>
  | EWO_broadcast                   \<comment> \<open>line 50\<close>
  | EWE_lock "'a error"             \<comment> \<open>ExitWithError, line 56\<close>
  | EWE_append "'a error"           \<comment> \<open>line 57\<close>
  | EWE_unlock                      \<comment> \<open>line 58, then the call of line 59\<close>
  | B_make                          \<comment> \<open>waitForInterruptRoutine, line 72\<close>
  | B_notify nat                    \<comment> \<open>line 73\<close>
  | B_go nat                        \<comment> \<open>line 75, then the call of line 85\<close>
  | B_stop nat                      \<comment> \<open>line 86\<close>
  | B_close nat                     \<comment> \<open>line 87\<close>
  | B_done
  | C_recv nat                      \<comment> \<open>the child routine, line 79, then the call of line 80\<close>
  | EOI_lock                        \<comment> \<open>ExitOnInterrupt, line 96\<close>
  | EOI_check                       \<comment> \<open>line 97\<close>
  | EOI_go                          \<comment> \<open>line 103\<close>
  | EOI_set                         \<comment> \<open>line 104\<close>
  | EOI_unlock                      \<comment> \<open>lines 99 and 105\<close>
  | WFE_lock cont                   \<comment> \<open>WaitForExit, line 119\<close>
  | WFE_load cont                   \<comment> \<open>line 120\<close>
  | WFE_wait cont                   \<comment> \<open>line 121: Wait unlocks and suspends atomically\<close>
  | WFE_parked cont                 \<comment> \<open>suspended inside Wait\<close>
  | WFE_relock cont                 \<comment> \<open>woken inside Wait, locking again\<close>
  | WFE_unlock cont                 \<comment> \<open>line 123, then the call of line 124\<close>
  | Done "'a result"

text \<open>A channel of \<^verbatim>\<open>os.Signal\<close> with capacity 1, as line 72 makes it.\<close>

record chan =
  buf :: nat
  closed :: bool
  notified :: bool    \<comment> \<open>\<^verbatim>\<open>signal.Notify\<close> relays os.Interrupt to it\<close>

record 'a state =
  shouldExit :: bool
  exitReasons :: "'a error list"
  signalAlreadyHandled :: bool
  mutex :: "nat option"           \<comment> \<open>the goroutine holding \<^verbatim>\<open>mutex\<close>, if any\<close>
  goroutines :: "'a pc list"      \<comment> \<open>a goroutine is named by its index\<close>
  chans :: "chan list"            \<comment> \<open>a channel is named by its index\<close>
  killed :: bool                  \<comment> \<open>an interrupt got the default handling\<close>

text \<open>
  The state after \<^verbatim>\<open>init()\<close> (lines 127 to 130), with the goroutines of the program
  that uses the package.
\<close>

definition init_state :: "'a pc list \<Rightarrow> 'a state" where
  "init_state gs =
     \<lparr>shouldExit = False, exitReasons = [], signalAlreadyHandled = False,
      mutex = None, goroutines = gs, chans = [], killed = False\<rparr>"

section \<open>The functions of the package, run without interference\<close>

definition ShouldExit :: "'a state \<Rightarrow> bool" where
  "ShouldExit s = shouldExit s"

definition ExitReason :: "'a state \<Rightarrow> 'a error" where
  "ExitReason s =
     (if length (exitReasons s) = 0 then ErrNil
      else if length (exitReasons s) = 1 then exitReasons s ! 0
      else errors_Join (exitReasons s))"

text \<open>\<^verbatim>\<open>exitCond.Broadcast()\<close> wakes every goroutine suspended in \<^verbatim>\<open>exitCond.Wait()\<close>.\<close>

fun wake :: "'a pc \<Rightarrow> 'a pc" where
  "wake (WFE_parked k) = WFE_relock k"
| "wake p = p"

definition Broadcast :: "'a state \<Rightarrow> 'a state" where
  "Broadcast s = s\<lparr>goroutines := map wake (goroutines s)\<rparr>"

definition ExitWithoutError :: "'a state \<Rightarrow> 'a state" where
  "ExitWithoutError s = Broadcast (s\<lparr>shouldExit := True\<rparr>)"

definition ExitWithError :: "'a error \<Rightarrow> 'a state \<Rightarrow> 'a state" where
  "ExitWithError e s = ExitWithoutError (s\<lparr>exitReasons := exitReasons s @ [e]\<rparr>)"

text \<open>
  \<^verbatim>\<open>ExitWithErrorf\<close> passes the error that \<^verbatim>\<open>fmt.Errorf\<close> builds from the format and
  the arguments, which is never nil; \<open>x\<close> stands for that error.
\<close>

definition ExitWithErrorf :: "'a \<Rightarrow> 'a state \<Rightarrow> 'a state" where
  "ExitWithErrorf x s = ExitWithError (Err x) s"

text \<open>
  \<^verbatim>\<open>go waitForInterruptRoutine()\<close> adds a goroutine. When the flag is set already the
  call changes nothing.
\<close>

definition ExitOnInterrupt :: "'a state \<Rightarrow> 'a state" where
  "ExitOnInterrupt s =
     (if signalAlreadyHandled s then s
      else s\<lparr>goroutines := goroutines s @ [B_make], signalAlreadyHandled := True\<rparr>)"

text \<open>
  With no other goroutine running, \<^verbatim>\<open>exitCond.Wait()\<close> never returns: the loop of
  line 120 is left only when the flag is set, and the result is \<open>None\<close> otherwise.
\<close>

definition WaitForExit :: "'a state \<Rightarrow> 'a error option" where
  "WaitForExit s = (if \<not> shouldExit s then None else Some (ExitReason s))"

text \<open>A call of the package's interface, and a sequence of calls made one after another.\<close>

datatype 'a call =
    CShouldExit | CExitReason | CExitWithoutError | CExitWithError "'a error"
  | CExitOnInterrupt | CWaitForExit

fun exec :: "'a call \<Rightarrow> 'a state \<Rightarrow> 'a state option" where
  "exec CShouldExit s = Some s"
| "exec CExitReason s = Some s"
| "exec CExitWithoutError s = Some (ExitWithoutError s)"
| "exec (CExitWithError e) s = Some (ExitWithError e s)"
| "exec CExitOnInterrupt s = Some (ExitOnInterrupt s)"
| "exec CWaitForExit s = (case WaitForExit s of None \<Rightarrow> None | Some e \<Rightarrow> Some s)"

fun execs :: "'a call list \<Rightarrow> 'a state \<Rightarrow> 'a state option" where
  "execs [] s = Some s"
| "execs (c # cs) s = (case exec c s of None \<Rightarrow> None | Some s' \<Rightarrow> execs cs s')"

section \<open>The interleaving of goroutines\<close>

definition goto :: "nat \<Rightarrow> 'a pc \<Rightarrow> 'a state \<Rightarrow> 'a state" where
  "goto t p s = s\<lparr>goroutines := (goroutines s)[t := p]\<rparr>"

text \<open>\<^verbatim>\<open>Lock\<close> blocks while another goroutine holds the mutex.\<close>

definition lock :: "nat \<Rightarrow> 'a pc \<Rightarrow> 'a state \<Rightarrow> 'a state option" where
  "lock t p s = (if mutex s = None then Some (goto t p (s\<lparr>mutex := Some t\<rparr>)) else None)"

definition unlock :: "'a state \<Rightarrow> 'a state" where
  "unlock s = s\<lparr>mutex := None\<rparr>"

fun ret :: "cont \<Rightarrow> 'a error \<Rightarrow> 'a pc" where
  "ret ToCaller e = Done (RError e)"
| "ret (ToBridge c) e = B_stop c"

definition new_chan :: chan where
  "new_chan = \<lparr>buf = 0, closed = False, notified = False\<rparr>"

text \<open>
  The action of goroutine \<open>t\<close> at program counter \<open>p\<close>; \<open>None\<close> when it cannot move
  (blocked on the mutex, suspended in Wait, receiving from an empty open channel, or
  finished). A receive from a closed channel returns at once. The actions are those of
  the source that touch shared memory, in the order the source makes them:
  \<^item> \<^verbatim>\<open>shouldExit\<close> is an \<^verbatim>\<open>atomic.Bool\<close>: \<^verbatim>\<open>Load\<close> and \<^verbatim>\<open>Store\<close> are single actions
    and need no lock;
  \<^item> \<^verbatim>\<open>exitCond\<close> is \<^verbatim>\<open>sync.NewCond(&mutex)\<close>, so \<^verbatim>\<open>exitCond.L\<close> is \<^verbatim>\<open>mutex\<close>;
    \<^verbatim>\<open>Wait\<close> "atomically unlocks c.L and suspends execution of the calling goroutine",
    returns only when woken, and locks again before it returns; \<^verbatim>\<open>Broadcast\<close> wakes the
    goroutines suspended at that moment and may be called without holding the lock;
  \<^item> a \<^verbatim>\<open>go\<close> statement adds a goroutine, which runs when it is scheduled;
  \<^item> \<^verbatim>\<open>signal.Notify\<close> registers a channel, \<^verbatim>\<open>signal.Stop\<close> removes the registration.
\<close>

fun step_pc :: "nat \<Rightarrow> 'a pc \<Rightarrow> 'a state \<Rightarrow> 'a state option" where
  "step_pc t SE_load s = Some (goto t (Done (RBool (shouldExit s))) s)"
| "step_pc t (ER_lock k) s = lock t (ER_read k) s"
| "step_pc t (ER_read k) s =
     Some (goto t
       (if length (exitReasons s) = 0 then ER_unlock ErrNil k
        else if length (exitReasons s) = 1 then ER_unlock1 k
        else ER_unlock (errors_Join (exitReasons s)) k) s)"
| "step_pc t (ER_unlock e k) s = Some (goto t (ret k e) (unlock s))"
| "step_pc t (ER_unlock1 k) s = Some (goto t (ER_index k) (unlock s))"
| "step_pc t (ER_index k) s =
     (case exitReasons s of
        [] \<Rightarrow> Some (goto t (Done RPanic) s)
      | e # es \<Rightarrow> Some (goto t (ret k e) s))"
| "step_pc t EWO_store s = Some (goto t EWO_broadcast (s\<lparr>shouldExit := True\<rparr>))"
| "step_pc t EWO_broadcast s = Some (goto t (Done RUnit) (Broadcast s))"
| "step_pc t (EWE_lock e) s = lock t (EWE_append e) s"
| "step_pc t (EWE_append e) s =
     Some (goto t EWE_unlock (s\<lparr>exitReasons := exitReasons s @ [e]\<rparr>))"
| "step_pc t EWE_unlock s = Some (goto t EWO_store (unlock s))"
| "step_pc t B_make s =
     Some (goto t (B_notify (length (chans s))) (s\<lparr>chans := chans s @ [new_chan]\<rparr>))"
| "step_pc t (B_notify c) s =
     Some (goto t (B_go c) (s\<lparr>chans := (chans s)[c := (chans s ! c)\<lparr>notified := True\<rparr>]\<rparr>))"
| "step_pc t (B_go c) s =
     Some (goto t (WFE_lock (ToBridge c)) (s\<lparr>goroutines := goroutines s @ [C_recv c]\<rparr>))"
| "step_pc t (B_stop c) s =
     Some (goto t (B_close c) (s\<lparr>chans := (chans s)[c := (chans s ! c)\<lparr>notified := False\<rparr>]\<rparr>))"
| "step_pc t (B_close c) s =
     Some (goto t B_done (s\<lparr>chans := (chans s)[c := (chans s ! c)\<lparr>closed := True\<rparr>]\<rparr>))"
| "step_pc t B_done s = None"
| "step_pc t (C_recv c) s =
     (if c < length (chans s) \<and> 0 < buf (chans s ! c)
      then Some (goto t EWO_store
             (s\<lparr>chans := (chans s)[c := (chans s ! c)\<lparr>buf := buf (chans s ! c) - 1\<rparr>]\<rparr>))
      else if c < length (chans s) \<and> closed (chans s ! c) then Some (goto t EWO_store s)
      else None)"
| "step_pc t EOI_lock s = lock t EOI_check s"
| "step_pc t EOI_check s =
     Some (goto t (if signalAlreadyHandled s then EOI_unlock else EOI_go) s)"
| "step_pc t EOI_go s = Some (goto t EOI_set (s\<lparr>goroutines := goroutines s @ [B_make]\<rparr>))"
| "step_pc t EOI_set s = Some (goto t EOI_unlock (s\<lparr>signalAlreadyHandled := True\<rparr>))"
| "step_pc t EOI_unlock s = Some (goto t (Done RUnit) (unlock s))"
| "step_pc t (WFE_lock k) s = lock t (WFE_load k) s"
| "step_pc t (WFE_load k) s =
     Some (goto t (if shouldExit s then WFE_unlock k else WFE_wait k) s)"
| "step_pc t (WFE_wait k) s = Some (goto t (WFE_parked k) (unlock s))"
| "step_pc t (WFE_parked k) s = None"
| "step_pc t (WFE_relock k) s = lock t (WFE_load k) s"
| "step_pc t (WFE_unlock k) s = Some (goto t (ER_lock k) (unlock s))"
| "step_pc t (Done r) s = None"

text \<open>
  An os.Interrupt reaching the process: the runtime sends it, without blocking, to every
  channel registered by \<^verbatim>\<open>signal.Notify\<close> (a full channel drops it); with no channel
  registered the signal has its default effect and the process is killed.
\<close>

definition deliver :: "chan \<Rightarrow> chan" where
  "deliver ch = (if notified ch \<and> buf ch < 1 then ch\<lparr>buf := buf ch + 1\<rparr> else ch)"

definition interrupt :: "'a state \<Rightarrow> 'a state" where
  "interrupt s =
     (if list_ex notified (chans s) then s\<lparr>chans := map deliver (chans s)\<rparr>
      else s\<lparr>killed := True\<rparr>)"

datatype event = Run nat | Interrupt

fun step :: "event \<Rightarrow> 'a state \<Rightarrow> 'a state option" where
  "step (Run t) s =
     (if killed s \<or> length (goroutines s) \<le> t then None
      else step_pc t (goroutines s ! t) s)"
| "step Interrupt s = (if killed s then None else Some (interrupt s))"

fun run :: "event list \<Rightarrow> 'a state \<Rightarrow> 'a state option" where
  "run [] s = Some s"
| "run (e # es) s = (case step e s of None \<Rightarrow> None | Some s' \<Rightarrow> run es s')"

section \<open>Predicates on program counters and the invariant of the interrupt bridge\<close>

text \<open>
  The program counters at which a goroutine of the calling program enters the package:
  the first action of each exported function. \<^verbatim>\<open>waitForInterruptRoutine\<close> is not
  exported, so no caller starts inside it.
\<close>

fun is_entry :: "'a pc \<Rightarrow> bool" where
  "is_entry SE_load = True"
| "is_entry (ER_lock ToCaller) = True"
| "is_entry EWO_store = True"
| "is_entry (EWE_lock e) = True"
| "is_entry EOI_lock = True"
| "is_entry (WFE_lock ToCaller) = True"
| "is_entry p = False"

text \<open>
  \<open>in_cs\<close>: the goroutine is between a \<^verbatim>\<open>Lock\<close> and the matching \<^verbatim>\<open>Unlock\<close>
  (or the unlocking \<^verbatim>\<open>Wait\<close>) of the mutex.
\<close>

fun in_cs :: "'a pc \<Rightarrow> bool" where
  "in_cs (ER_read k) = True"
| "in_cs (ER_unlock e k) = True"
| "in_cs (ER_unlock1 k) = True"
| "in_cs (EWE_append e) = True"
| "in_cs EWE_unlock = True"
| "in_cs EOI_check = True"
| "in_cs EOI_go = True"
| "in_cs EOI_set = True"
| "in_cs EOI_unlock = True"
| "in_cs (WFE_load k) = True"
| "in_cs (WFE_wait k) = True"
| "in_cs (WFE_unlock k) = True"
| "in_cs p = False"

fun in_ER :: "'a pc \<Rightarrow> bool" where
  "in_ER (ER_lock k) = True"
| "in_ER (ER_read k) = True"
| "in_ER (ER_unlock e k) = True"
| "in_ER (ER_unlock1 k) = True"
| "in_ER (ER_index k) = True"
| "in_ER p = False"

text \<open>The goroutine has found exactly one entry in the log and has not read it yet.\<close>

fun past_len1 :: "'a pc \<Rightarrow> bool" where
  "past_len1 (ER_unlock1 k) = True"
| "past_len1 (ER_index k) = True"
| "past_len1 p = False"

fun at_go :: "'a pc \<Rightarrow> bool" where
  "at_go EOI_go = True"
| "at_go p = False"

fun at_set :: "'a pc \<Rightarrow> bool" where
  "at_set EOI_set = True"
| "at_set p = False"

text \<open>
  The goroutine running \<^verbatim>\<open>waitForInterruptRoutine\<close> is in one of four phases: before
  line 72 (\<open>premake\<close>), before line 73 (\<open>at_notify\<close>), between \<^verbatim>\<open>signal.Notify\<close>
  and \<^verbatim>\<open>signal.Stop\<close> (\<open>listening\<close>), and after \<^verbatim>\<open>signal.Stop\<close> (\<open>after_stop\<close>).
\<close>

fun is_bk :: "cont \<Rightarrow> bool" where
  "is_bk ToCaller = False"
| "is_bk (ToBridge c) = True"

fun premake :: "'a pc \<Rightarrow> bool" where
  "premake B_make = True"
| "premake p = False"

fun at_notify :: "'a pc \<Rightarrow> bool" where
  "at_notify (B_notify c) = True"
| "at_notify p = False"

fun listening :: "'a pc \<Rightarrow> bool" where
  "listening (B_go c) = True"
| "listening (B_stop c) = True"
| "listening (WFE_lock k) = is_bk k"
| "listening (WFE_load k) = is_bk k"
| "listening (WFE_wait k) = is_bk k"
| "listening (WFE_parked k) = is_bk k"
| "listening (WFE_relock k) = is_bk k"
| "listening (WFE_unlock k) = is_bk k"
| "listening (ER_lock k) = is_bk k"
| "listening (ER_read k) = is_bk k"
| "listening (ER_unlock e k) = is_bk k"
| "listening (ER_unlock1 k) = is_bk k"
| "listening (ER_index k) = is_bk k"
| "listening p = False"

fun after_stop :: "'a pc \<Rightarrow> bool" where
  "after_stop (B_close c) = True"
| "after_stop B_done = True"
| "after_stop p = False"

definition is_bridge :: "'a pc \<Rightarrow> bool" where
  "is_bridge p = (premake p \<or> at_notify p \<or> listening p \<or> after_stop p)"

fun at_bgo :: "'a pc \<Rightarrow> bool" where
  "at_bgo (B_go c) = True"
| "at_bgo p = False"

fun at_recv :: "'a pc \<Rightarrow> bool" where
  "at_recv (C_recv c) = True"
| "at_recv p = False"

text \<open>
  The channel a program counter refers to has been made: its index is below the number of
  channels.
\<close>

fun kok :: "cont \<Rightarrow> nat \<Rightarrow> bool" where
  "kok ToCaller n = True"
| "kok (ToBridge c) n = (c < n)"

fun chan_ok :: "'a pc \<Rightarrow> nat \<Rightarrow> bool" where
  "chan_ok (B_notify c) n = (c < n)"
| "chan_ok (B_go c) n = (c < n)"
| "chan_ok (B_stop c) n = (c < n)"
| "chan_ok (B_close c) n = (c < n)"
| "chan_ok (C_recv c) n = (c < n)"
| "chan_ok (WFE_lock k) n = kok k n"
| "chan_ok (WFE_load k) n = kok k n"
| "chan_ok (WFE_wait k) n = kok k n"
| "chan_ok (WFE_parked k) n = kok k n"
| "chan_ok (WFE_relock k) n = kok k n"
| "chan_ok (WFE_unlock k) n = kok k n"
| "chan_ok (ER_lock k) n = kok k n"
| "chan_ok (ER_read k) n = kok k n"
| "chan_ok (ER_unlock e k) n = kok k n"
| "chan_ok (ER_unlock1 k) n = kok k n"
| "chan_ok (ER_index k) n = kok k n"
| "chan_ok p n = True"

text \<open>
  The number of elements of a list that satisfy a predicate, as an integer, so that the
  effect of replacing one element is a difference.
\<close>

definition cnt :: "('b \<Rightarrow> bool) \<Rightarrow> 'b list \<Rightarrow> int" where
  "cnt P xs = int (length (filter P xs))"

text \<open>
  The invariant of every state reached from \<open>init_state\<close>: at most one goroutine is inside
  the mutex, and exactly when the mutex is held; the bridge routines are as many as
  \<^verbatim>\<open>signalAlreadyHandled\<close> says (counting the caller that has started one and not yet set
  the flag); a caller about to start one has seen the flag unset; every bridge routine past
  line 72 has made one channel; and the registered channels are as many as the bridge
  routines between \<^verbatim>\<open>signal.Notify\<close> and \<^verbatim>\<open>signal.Stop\<close>.
\<close>

definition bridge_inv :: "'a state \<Rightarrow> bool" where
  "bridge_inv s =
     (cnt in_cs (goroutines s) = (if mutex s = None then 0 else 1) \<and>
      cnt premake (goroutines s) + cnt at_notify (goroutines s) + cnt listening (goroutines s)
        + cnt after_stop (goroutines s)
        = cnt at_set (goroutines s) + (if signalAlreadyHandled s then 1 else 0) \<and>
      (signalAlreadyHandled s \<longrightarrow>
         cnt at_go (goroutines s) = 0 \<and> cnt at_set (goroutines s) = 0) \<and>
      int (length (chans s)) = cnt at_notify (goroutines s) + cnt listening (goroutines s)
        + cnt after_stop (goroutines s) \<and>
      list_all (\<lambda>p. chan_ok p (length (chans s))) (goroutines s) \<and>
      cnt notified (chans s) = cnt listening (goroutines s))"

text \<open>A goroutine about to read the first entry of the log (line 38) finds one.\<close>

definition index_inv :: "'a state \<Rightarrow> bool" where
  "index_inv s = (exitReasons s = [] \<longrightarrow> cnt past_len1 (goroutines s) = 0)"

text \<open>
  The child routines waiting on a channel are at most as many as the bridge routines that
  have passed line 75.
\<close>

definition child_inv :: "'a state \<Rightarrow> bool" where
  "child_inv s =
     (cnt at_recv (goroutines s) + cnt at_bgo (goroutines s)
        \<le> cnt listening (goroutines s) + cnt after_stop (goroutines s))"

text \<open>
  The goroutine is inside \<^verbatim>\<open>WaitForExit\<close> or \<^verbatim>\<open>ExitReason\<close> at an action other than
  the suspension of line 121, or past the return.
\<close>

fun returning :: "'a pc \<Rightarrow> bool" where
  "returning (WFE_lock k) = True"
| "returning (WFE_load k) = True"
| "returning (WFE_unlock k) = True"
| "returning (ER_lock k) = True"
| "returning (ER_read k) = True"
| "returning (ER_unlock e k) = True"
| "returning (ER_unlock1 k) = True"
| "returning (ER_index k) = True"
| "returning (Done r) = True"
| "returning (B_stop c) = True"
| "returning (B_close c) = True"
| "returning B_done = True"
| "returning p = False"

text \<open>
  The reason a goroutine inside \<^verbatim>\<open>ExitWithError\<close> has still to append to the log
  (before line 57 has run), as a multiset.
\<close>

fun owe :: "'a pc \<Rightarrow> 'a error multiset" where
  "owe (EWE_lock e) = {#e#}"
| "owe (EWE_append e) = {#e#}"
| "owe p = {#}"

text \<open>The goroutine is inside a signalling call and has not yet stored the flag (line 49).\<close>

fun before_store :: "'a pc \<Rightarrow> bool" where
  "before_store (EWE_lock e) = True"
| "before_store (EWE_append e) = True"
| "before_store EWE_unlock = True"
| "before_store EWO_store = True"
| "before_store p = False"

text \<open>The three invariants together.\<close>

definition reach_inv :: "'a state \<Rightarrow> bool" where
  "reach_inv s = (bridge_inv s \<and> index_inv s \<and> child_inv s)"

text \<open>
  A call that records a reason.
\<close>

fun signals_error :: "'a call \<Rightarrow> bool" where
  "signals_error (CExitWithError e) = True"
| "signals_error c = False"

section \<open>Basic facts\<close>

subsection \<open>Fields after each operation\<close>

lemma Broadcast_simps [simp]:
  "shouldExit (Broadcast s) = shouldExit s"
  "exitReasons (Broadcast s) = exitReasons s"
  "signalAlreadyHandled (Broadcast s) = signalAlreadyHandled s"
  "mutex (Broadcast s) = mutex s"
  "chans (Broadcast s) = chans s"
  "killed (Broadcast s) = killed s"
  "goroutines (Broadcast s) = map wake (goroutines s)"
  by (simp_all add: Broadcast_def)

lemma goto_simps [simp]:
  "shouldExit (goto t p s) = shouldExit s"
  "exitReasons (goto t p s) = exitReasons s"
  "signalAlreadyHandled (goto t p s) = signalAlreadyHandled s"
  "mutex (goto t p s) = mutex s"
  "chans (goto t p s) = chans s"
  "killed (goto t p s) = killed s"
  "goroutines (goto t p s) = (goroutines s)[t := p]"
  by (simp_all add: goto_def)

lemma unlock_simps [simp]:
  "shouldExit (unlock s) = shouldExit s"
  "exitReasons (unlock s) = exitReasons s"
  "signalAlreadyHandled (unlock s) = signalAlreadyHandled s"
  "mutex (unlock s) = None"
  "chans (unlock s) = chans s"
  "killed (unlock s) = killed s"
  "goroutines (unlock s) = goroutines s"
  by (simp_all add: unlock_def)

lemma init_simps [simp]:
  "shouldExit (init_state gs) = False"
  "exitReasons (init_state gs) = []"
  "signalAlreadyHandled (init_state gs) = False"
  "mutex (init_state gs) = None"
  "chans (init_state gs) = []"
  "killed (init_state gs) = False"
  "goroutines (init_state gs) = gs"
  by (simp_all add: init_state_def)

lemma ExitWithoutError_simps [simp]:
  "shouldExit (ExitWithoutError s) = True"
  "exitReasons (ExitWithoutError s) = exitReasons s"
  "signalAlreadyHandled (ExitWithoutError s) = signalAlreadyHandled s"
  "mutex (ExitWithoutError s) = mutex s"
  "chans (ExitWithoutError s) = chans s"
  "killed (ExitWithoutError s) = killed s"
  "goroutines (ExitWithoutError s) = map wake (goroutines s)"
  by (simp_all add: ExitWithoutError_def)

lemma ExitWithError_simps [simp]:
  "shouldExit (ExitWithError e s) = True"
  "exitReasons (ExitWithError e s) = exitReasons s @ [e]"
  "signalAlreadyHandled (ExitWithError e s) = signalAlreadyHandled s"
  "mutex (ExitWithError e s) = mutex s"
  "chans (ExitWithError e s) = chans s"
  "killed (ExitWithError e s) = killed s"
  "goroutines (ExitWithError e s) = map wake (goroutines s)"
  by (simp_all add: ExitWithError_def)

lemma ExitOnInterrupt_simps [simp]:
  "shouldExit (ExitOnInterrupt s) = shouldExit s"
  "exitReasons (ExitOnInterrupt s) = exitReasons s"
  "signalAlreadyHandled (ExitOnInterrupt s) = True"
  "mutex (ExitOnInterrupt s) = mutex s"
  "chans (ExitOnInterrupt s) = chans s"
  "killed (ExitOnInterrupt s) = killed s"
  by (simp_all add: ExitOnInterrupt_def)

subsection \<open>Joining errors\<close>

lemma errors_Join_eq:
  "errors_Join es = (if list_all is_nil es then ErrNil else JoinError (filter (\<lambda>e. \<not> is_nil e) es))"
  by (auto simp: errors_Join_def Let_def list_all_iff filter_empty_conv)

lemma filter_not_nil_id: "\<not> list_ex is_nil es \<Longrightarrow> filter (\<lambda>e. \<not> is_nil e) es = es"
  by (induction es) auto

subsection \<open>Counting\<close>

lemma cnt_Nil [simp]: "cnt P [] = 0"
  by (simp add: cnt_def)

lemma cnt_Cons [simp]: "cnt P (x # xs) = (if P x then 1 else 0) + cnt P xs"
  by (simp add: cnt_def)

lemma cnt_append [simp]: "cnt P (xs @ ys) = cnt P xs + cnt P ys"
  by (simp add: cnt_def)

lemma cnt_nonneg: "0 \<le> cnt P xs"
  by (simp add: cnt_def)

lemma cnt_update:
  "t < length xs \<Longrightarrow>
   cnt P (xs[t := q]) = cnt P xs - (if P (xs ! t) then 1 else 0) + (if P q then 1 else 0)"
proof (induction xs arbitrary: t)
  case Nil
  then show ?case by simp
next
  case (Cons x xs)
  then show ?case by (cases t) auto
qed

lemma cnt_pos: "t < length xs \<Longrightarrow> P (xs ! t) \<Longrightarrow> 1 \<le> cnt P xs"
proof (induction xs arbitrary: t)
  case Nil
  then show ?case by simp
next
  case (Cons x xs)
  show ?case
  proof (cases t)
    case 0
    with Cons.prems show ?thesis using cnt_nonneg [of P xs] by simp
  next
    case (Suc u)
    with Cons.prems have "1 \<le> cnt P xs" by (auto intro: Cons.IH)
    then show ?thesis by simp
  qed
qed

lemma cnt_map: "(\<And>p. P (f p) = P p) \<Longrightarrow> cnt P (map f xs) = cnt P xs"
  by (induction xs) auto

lemma cnt_zero: "list_all (\<lambda>p. \<not> P p) xs \<Longrightarrow> cnt P xs = 0"
  by (induction xs) auto

lemma cnt_zero_iff: "(cnt P xs = 0) = (\<not> list_ex P xs)"
  using cnt_nonneg [of P] by (induction xs) (auto simp: add_nonneg_eq_0_iff)

lemma cnt_ge1_iff: "(1 \<le> cnt P xs) = list_ex P xs"
  using cnt_zero_iff [of P xs] cnt_nonneg [of P xs] by auto

lemma cnt_single: "length xs = 1 \<Longrightarrow> cnt P xs = (if P (xs ! 0) then 1 else 0)"
  by (cases xs) auto

subsection \<open>Program counters\<close>

lemma wake_preds [simp]:
  "in_cs (wake p) = in_cs p" "at_go (wake p) = at_go p" "at_set (wake p) = at_set p"
  "premake (wake p) = premake p" "at_notify (wake p) = at_notify p"
  "listening (wake p) = listening p" "after_stop (wake p) = after_stop p"
  "past_len1 (wake p) = past_len1 p"
  by (cases p; simp)+

lemma wake_preds2 [simp]: "at_recv (wake p) = at_recv p" "at_bgo (wake p) = at_bgo p"
  by (cases p; simp)+

lemma ret_preds [simp]:
  "in_cs (ret k e) = False" "at_go (ret k e) = False" "at_set (ret k e) = False"
  "premake (ret k e) = False" "at_notify (ret k e) = False"
  "listening (ret k e) = is_bk k" "after_stop (ret k e) = False"
  "past_len1 (ret k e) = False"
  by (cases k; simp)+

lemma ret_preds2 [simp]: "at_recv (ret k e) = False" "at_bgo (ret k e) = False"
  by (cases k; simp)+

lemma go_set_cs: "cnt at_go xs + cnt at_set xs \<le> cnt in_cs xs"
proof (induction xs)
  case Nil
  show ?case by simp
next
  case (Cons p xs)
  then show ?case by (cases p) auto
qed

lemma bridge_parts:
  "cnt is_bridge xs = cnt premake xs + cnt at_notify xs + cnt listening xs + cnt after_stop xs"
proof (induction xs)
  case Nil
  show ?case by simp
next
  case (Cons p xs)
  then show ?case by (cases p) (auto simp: is_bridge_def)
qed

lemma chan_ok_wake [simp]: "chan_ok (wake p) n = chan_ok p n"
  by (cases p) simp_all

lemma chan_ok_ret [simp]: "chan_ok (ret k e) n = kok k n"
  by (cases k) simp_all

lemma kok_Suc: "kok k n \<Longrightarrow> kok k (Suc n)"
  by (cases k) simp_all

lemma chan_ok_Suc: "chan_ok p n \<Longrightarrow> chan_ok p (Suc n)"
  by (cases p) (simp_all add: kok_Suc)

lemma list_all_update: "list_all P xs \<Longrightarrow> P q \<Longrightarrow> list_all P (xs[t := q])"
  by (induction xs arbitrary: t) (auto split: nat.splits)

lemma list_all_nth: "list_all P xs \<Longrightarrow> t < length xs \<Longrightarrow> P (xs ! t)"
  by (simp add: list_all_length)

lemma list_all_chan_ok_Suc:
  "list_all (\<lambda>p. chan_ok p n) xs \<Longrightarrow> list_all (\<lambda>p. chan_ok p (Suc n)) xs"
  by (induction xs) (auto simp: chan_ok_Suc)

lemma list_all_map_wake:
  "list_all (\<lambda>p. chan_ok p n) (map wake xs) = list_all (\<lambda>p. chan_ok p n) xs"
  by (induction xs) auto

section \<open>A call run alone is the function of the same name\<close>

text \<open>
  When goroutine \<open>t\<close> runs a call from its first action to its last with no other
  goroutine scheduled in between, starting with the mutex free, the state it leaves is the
  one the function of the previous section computes, and its result is the function's
  result. A \<^verbatim>\<open>WaitForExit\<close> that finds the flag unset ends suspended in \<^verbatim>\<open>Wait\<close>.
\<close>

lemma solo_ShouldExit:
  assumes "\<not> killed s" "t < length (goroutines s)" "goroutines s ! t = SE_load"
  shows "run [Run t] s = Some (goto t (Done (RBool (ShouldExit s))) s)"
  using assms by (simp add: ShouldExit_def)

lemma solo_ExitReason:
  assumes "mutex s = None" "\<not> killed s" "t < length (goroutines s)"
    "goroutines s ! t = ER_lock ToCaller"
  shows "run (Run t # Run t # Run t # (if length (exitReasons s) = 1 then [Run t] else [])) s
         = Some (goto t (Done (RError (ExitReason s))) s)"
  using assms
  by (cases "exitReasons s") (simp_all add: lock_def goto_def unlock_def ExitReason_def)

lemma solo_ExitWithoutError:
  assumes "\<not> killed s" "t < length (goroutines s)" "goroutines s ! t = EWO_store"
  shows "run [Run t, Run t] s = Some (goto t (Done RUnit) (ExitWithoutError s))"
  using assms by (simp add: goto_def ExitWithoutError_def Broadcast_def map_update)

lemma solo_ExitWithError:
  assumes "mutex s = None" "\<not> killed s" "t < length (goroutines s)"
    "goroutines s ! t = EWE_lock e"
  shows "run [Run t, Run t, Run t, Run t, Run t] s
         = Some (goto t (Done RUnit) (ExitWithError e s))"
  using assms
  by (simp add: lock_def goto_def unlock_def ExitWithError_def ExitWithoutError_def
      Broadcast_def map_update)

lemma solo_ExitOnInterrupt_first:
  assumes "mutex s = None" "\<not> killed s" "t < length (goroutines s)"
    "goroutines s ! t = EOI_lock" "\<not> signalAlreadyHandled s"
  shows "run [Run t, Run t, Run t, Run t, Run t] s
         = Some (goto t (Done RUnit) (ExitOnInterrupt s))"
  using assms
  by (simp add: lock_def goto_def unlock_def ExitOnInterrupt_def nth_append list_update_append)

lemma solo_ExitOnInterrupt_again:
  assumes "mutex s = None" "\<not> killed s" "t < length (goroutines s)"
    "goroutines s ! t = EOI_lock" "signalAlreadyHandled s"
  shows "run [Run t, Run t, Run t] s = Some (goto t (Done RUnit) (ExitOnInterrupt s))"
  using assms
  by (simp add: lock_def goto_def unlock_def ExitOnInterrupt_def)

lemma solo_WaitForExit_flagged:
  assumes "mutex s = None" "\<not> killed s" "t < length (goroutines s)"
    "goroutines s ! t = WFE_lock ToCaller" "shouldExit s"
  shows "run (Run t # Run t # Run t # Run t # Run t # Run t #
              (if length (exitReasons s) = 1 then [Run t] else [])) s
         = Some (goto t (Done (RError (ExitReason s))) s)"
  using assms
  by (cases "exitReasons s") (simp_all add: lock_def goto_def unlock_def ExitReason_def)

lemma solo_WaitForExit_blocks:
  assumes "mutex s = None" "\<not> killed s" "t < length (goroutines s)"
    "goroutines s ! t = WFE_lock ToCaller" "\<not> shouldExit s"
  shows "run [Run t, Run t, Run t] s = Some (goto t (WFE_parked ToCaller) s) \<and>
         step (Run t) (goto t (WFE_parked ToCaller) s) = None"
  using assms by (simp add: lock_def goto_def unlock_def)

section \<open>What every step preserves\<close>

lemma step_Run_pc:
  "step (Run t) s = Some s' \<Longrightarrow>
   \<not> killed s \<and> t < length (goroutines s) \<and> step_pc t (goroutines s ! t) s = Some s'"
  by (simp split: if_splits)

lemma step_pc_flag: "step_pc t p s = Some s' \<Longrightarrow> shouldExit s \<Longrightarrow> shouldExit s'"
  by (cases p) (auto simp: lock_def split: if_splits list.splits)

lemma step_flag: "step e s = Some s' \<Longrightarrow> shouldExit s \<Longrightarrow> shouldExit s'"
  by (cases e) (auto simp: interrupt_def dest: step_pc_flag split: if_splits)

lemma run_flag: "run evs s = Some s' \<Longrightarrow> shouldExit s \<Longrightarrow> shouldExit s'"
proof (induction evs arbitrary: s)
  case Nil
  then show ?case by simp
next
  case (Cons e evs)
  then show ?case by (auto split: option.splits dest: step_flag)
qed







lemma step_pc_ER_frame:
  "in_ER p \<Longrightarrow> step_pc t p s = Some s' \<Longrightarrow>
   exitReasons s' = exitReasons s \<and> shouldExit s' = shouldExit s \<and>
   signalAlreadyHandled s' = signalAlreadyHandled s \<and> chans s' = chans s"
  by (cases p) (auto simp: lock_def split: if_splits list.splits)

subsection \<open>With the flag set no goroutine enters the suspension\<close>

lemma returning_wake [simp]: "returning p \<Longrightarrow> wake p = p"
  by (cases p) simp_all

lemma returning_ret [simp]: "returning (ret k e)"
  by (cases k) simp_all

lemma step_pc_length:
  "step_pc u p s = Some s' \<Longrightarrow> length (goroutines s) \<le> length (goroutines s')"
  by (cases p) (auto simp: lock_def split: if_splits list.splits)

lemma step_pc_other:
  "step_pc u p s = Some s' \<Longrightarrow> t < length (goroutines s) \<Longrightarrow> t \<noteq> u \<Longrightarrow>
   goroutines s' ! t = goroutines s ! t \<or> goroutines s' ! t = wake (goroutines s ! t)"
  by (cases p) (auto simp: lock_def nth_append split: if_splits list.splits)

lemma step_pc_returning:
  assumes "t < length (goroutines s)" and "step_pc t (goroutines s ! t) s = Some s'"
    and "returning (goroutines s ! t)" and "shouldExit s"
  shows "returning (goroutines s' ! t)"
  using assms by (cases "goroutines s ! t") (auto simp: lock_def split: if_splits list.splits)

lemma step_returning:
  assumes "step e s = Some s'" and "t < length (goroutines s)"
    and "returning (goroutines s ! t)" and "shouldExit s"
  shows "t < length (goroutines s') \<and> returning (goroutines s' ! t)"
proof (cases e)
  case (Run u)
  with assms(1) have "step (Run u) s = Some s'" by simp
  from step_Run_pc [OF this]
  have u: "u < length (goroutines s)" and p: "step_pc u (goroutines s ! u) s = Some s'"
    by simp_all
  from step_pc_length [OF p] assms(2) have l: "t < length (goroutines s')" by simp
  show ?thesis
  proof (cases "t = u")
    case True
    with step_pc_returning [OF u p] assms(3,4) l show ?thesis by simp
  next
    case False
    from step_pc_other [OF p assms(2) False] assms(3) l show ?thesis by auto
  qed
next
  case Interrupt
  with assms show ?thesis by (auto simp: interrupt_def split: if_splits)
qed

lemma run_returning:
  "run evs s = Some s' \<Longrightarrow> t < length (goroutines s) \<Longrightarrow> returning (goroutines s ! t) \<Longrightarrow>
   shouldExit s \<Longrightarrow> t < length (goroutines s') \<and> returning (goroutines s' ! t)"
proof (induction evs arbitrary: s)
  case Nil
  then show ?case by simp
next
  case (Cons e evs)
  from Cons.prems(1) obtain s1 where 1: "step e s = Some s1" and 2: "run evs s1 = Some s'"
    by (auto split: option.splits)
  from step_returning [OF 1 Cons.prems(2,3,4)]
  have a: "t < length (goroutines s1)" and b: "returning (goroutines s1 ! t)" by simp_all
  from Cons.IH [OF 2 a b step_flag [OF 1 Cons.prems(4)]] show ?case .
qed

subsection \<open>Every reason a caller passes reaches the log\<close>

text \<open>
  A step appends to the log exactly what the goroutine that takes it ceases to owe, and
  changes what no other goroutine owes; so along every schedule what two goroutines owed at
  the start is among what has been appended since, together with what they still owe. A
  goroutine that has left a signalling call has stored the flag.
\<close>

lemma owe_wake [simp]: "owe (wake p) = owe p"
  by (cases p) simp_all

lemma owe_ret [simp]: "owe (ret k e) = {#}"
  by (cases k) simp_all

lemma before_store_wake [simp]: "before_store (wake p) = before_store p"
  by (cases p) simp_all









subsection \<open>Sequences of calls\<close>

lemma exec_quiet:
  "\<not> signals_error c \<Longrightarrow> shouldExit s \<Longrightarrow>
   \<exists>s'. exec c s = Some s' \<and> shouldExit s' \<and> exitReasons s' = exitReasons s"
  by (cases c) (auto simp: WaitForExit_def)

lemma execs_quiet:
  "list_all (\<lambda>c. \<not> signals_error c) cs \<Longrightarrow> shouldExit s \<Longrightarrow>
   \<exists>s'. execs cs s = Some s' \<and> shouldExit s' \<and> exitReasons s' = exitReasons s"
proof (induction cs arbitrary: s)
  case Nil
  then show ?case by simp
next
  case (Cons c cs)
  from Cons.prems have q: "\<not> signals_error c" and r: "list_all (\<lambda>c. \<not> signals_error c) cs"
    by simp_all
  from exec_quiet [OF q Cons.prems(2)] obtain s1 where
    1: "exec c s = Some s1" and 2: "shouldExit s1" and 3: "exitReasons s1 = exitReasons s"
    by blast
  from Cons.IH [OF r 2] 1 3 show ?case by auto
qed

lemma execs_total:
  "shouldExit s \<Longrightarrow> \<exists>s'. execs cs s = Some s' \<and> shouldExit s'"
proof (induction cs arbitrary: s)
  case Nil
  then show ?case by simp
next
  case (Cons c cs)
  have "\<exists>s1. exec c s = Some s1 \<and> shouldExit s1"
    using Cons.prems by (cases c) (auto simp: WaitForExit_def)
  then obtain s1 where 1: "exec c s = Some s1" and 2: "shouldExit s1" by blast
  from Cons.IH [OF 2] 1 show ?case by auto
qed

subsection \<open>The invariant of the bridge\<close>

lemma bridge_inv_init: "list_all is_entry gs \<Longrightarrow> bridge_inv (init_state gs)"
proof -
  assume a: "list_all is_entry gs"
  have z: "\<And>P. (\<And>p::'a pc. is_entry p \<Longrightarrow> \<not> P p) \<Longrightarrow> cnt P gs = 0"
    using a by (intro cnt_zero) (auto simp: list_all_iff)
  have "cnt in_cs gs = 0" by (rule z) (erule is_entry.elims; simp)
  moreover have "cnt premake gs = 0" by (rule z) (erule is_entry.elims; simp)
  moreover have "cnt at_notify gs = 0" by (rule z) (erule is_entry.elims; simp)
  moreover have "cnt listening gs = 0" by (rule z) (erule is_entry.elims; simp)
  moreover have "cnt after_stop gs = 0" by (rule z) (erule is_entry.elims; simp)
  moreover have "cnt at_set gs = 0" by (rule z) (erule is_entry.elims; simp)
  moreover have "list_all (\<lambda>p. chan_ok p 0) gs"
  proof -
    have "is_entry p \<Longrightarrow> chan_ok p 0" for p :: "'a pc"
      by (erule is_entry.elims; simp)
    with a show ?thesis by (auto simp: list_all_iff)
  qed
  ultimately show ?thesis by (simp add: bridge_inv_def)
qed

lemma bridge_inv_interrupt: "bridge_inv s \<Longrightarrow> bridge_inv (interrupt s)"
proof -
  have "notified (deliver ch) = notified ch" for ch by (simp add: deliver_def)
  then have "cnt notified (map deliver xs) = cnt notified xs" for xs by (rule cnt_map)
  then show "bridge_inv s \<Longrightarrow> bridge_inv (interrupt s)"
    by (simp add: bridge_inv_def interrupt_def)
qed

lemma index_nonempty:
  assumes "index_inv s" and "t < length (goroutines s)" and "goroutines s ! t = ER_index k"
  shows "\<exists>e es. exitReasons s = e # es"
  using assms cnt_pos [of t "goroutines s" past_len1]
  by (cases "exitReasons s") (auto simp: index_inv_def)

lemma index_inv_step_pc:
  assumes t: "t < length (goroutines s)" and p: "step_pc t (goroutines s ! t) s = Some s'"
    and i: "index_inv s"
  shows "index_inv s'"
  using t p i cnt_pos [OF t, of past_len1] cnt_nonneg [of past_len1 "goroutines s"]
  by (cases "goroutines s ! t")
    (auto simp: index_inv_def cnt_update cnt_map lock_def nth_append
      split: if_splits list.splits)

lemma bridge_inv_step_pc:
  assumes t: "t < length (goroutines s)" and p: "step_pc t (goroutines s ! t) s = Some s'"
    and i: "bridge_inv s" and x: "index_inv s"
  shows "bridge_inv s'"
proof -
  let ?g = "goroutines s"
  note gs = go_set_cs [of ?g] cnt_nonneg [of at_go ?g] cnt_nonneg [of at_set ?g]
  note br = cnt_nonneg [of premake ?g] cnt_nonneg [of at_notify ?g]
    cnt_nonneg [of listening ?g] cnt_nonneg [of after_stop ?g]
  note cs = cnt_pos [OF t, of in_cs]
  note ls = cnt_pos [OF t, of listening]
  note upd = bridge_inv_def cnt_update list_all_update
  from i have "list_all (\<lambda>p. chan_ok p (length (chans s))) ?g"
    by (simp add: bridge_inv_def)
  from list_all_nth [OF this t] have ok: "chan_ok (?g ! t) (length (chans s))" .
  show ?thesis
  proof (cases "?g ! t")
    case SE_load
    with t p i show ?thesis by (auto simp: upd)
  next
    case (ER_lock k)
    with t p i ok ls show ?thesis by (auto simp: upd lock_def split: if_splits)
  next
    case (ER_read k)
    with t p i ok cs ls show ?thesis by (auto simp: upd)
  next
    case (ER_unlock e k)
    with t p i ok cs ls show ?thesis by (auto simp: upd split: if_splits)
  next
    case (ER_unlock1 k)
    with t p i ok cs ls show ?thesis by (auto simp: upd split: if_splits)
  next
    case (ER_index k)
    from index_nonempty [OF x t ER_index] obtain e es where "exitReasons s = e # es"
      by blast
    with ER_index t p i ok ls show ?thesis
      by (auto simp: upd split: if_splits)
  next
    case EWO_store
    with t p i show ?thesis by (auto simp: upd)
  next
    case EWO_broadcast
    with t p i show ?thesis by (auto simp: upd cnt_map list_all_map_wake)
  next
    case (EWE_lock e)
    with t p i show ?thesis by (auto simp: upd lock_def split: if_splits)
  next
    case (EWE_append e)
    with t p i show ?thesis by (auto simp: upd)
  next
    case EWE_unlock
    with t p i cs show ?thesis by (auto simp: upd split: if_splits)
  next
    case B_make
    with t p i cnt_pos [OF t, of premake] show ?thesis
      by (auto simp: upd new_chan_def list_all_chan_ok_Suc)
  next
    case (B_notify c)
    with ok have c: "c < length (chans s)" by simp
    from i gs br cnt_pos [OF t, of at_notify] B_notify
    have l: "length (chans s) = 1" and z: "cnt listening ?g = 0"
      by (auto simp: bridge_inv_def split: if_splits)
    with i cnt_pos [OF c, of notified] have n: "\<not> notified (chans s ! c)"
      by (auto simp: bridge_inv_def)
    from B_notify t p i c l z n show ?thesis
      by (auto simp: upd)
  next
    case (B_go c)
    with t p i ok show ?thesis
      by (auto simp: upd nth_append)
  next
    case (B_stop c)
    with ok have c: "c < length (chans s)" by simp
    from i gs br ls B_stop
    have l: "length (chans s) = 1" and z: "cnt listening ?g = 1"
      by (auto simp: bridge_inv_def split: if_splits)
    from l c have c0: "c = 0" by simp
    from i z l cnt_single [of "chans s" notified] c0 have n: "notified (chans s ! c)"
      by (auto simp: bridge_inv_def split: if_splits)
    from B_stop t p i c l z n show ?thesis
      by (auto simp: upd)
  next
    case (B_close c)
    with ok have c: "c < length (chans s)" by simp
    from B_close t p i c show ?thesis
      by (auto simp: upd)
  next
    case B_done
    with p show ?thesis by simp
  next
    case (C_recv c)
    with t p i show ?thesis
      by (auto simp: upd split: if_splits)
  next
    case EOI_lock
    with t p i show ?thesis by (auto simp: upd lock_def split: if_splits)
  next
    case EOI_check
    with t p i show ?thesis by (auto simp: upd)
  next
    case EOI_go
    with t p i cnt_pos [OF t, of at_go] show ?thesis
      by (auto simp: upd nth_append)
  next
    case EOI_set
    with t p i cnt_pos [OF t, of at_set] cs gs show ?thesis
      by (auto simp: upd split: if_splits)
  next
    case EOI_unlock
    with t p i cs show ?thesis by (auto simp: upd split: if_splits)
  next
    case (WFE_lock k)
    with t p i ok show ?thesis by (auto simp: upd lock_def split: if_splits)
  next
    case (WFE_load k)
    with t p i ok show ?thesis by (auto simp: upd)
  next
    case (WFE_wait k)
    with t p i ok cs show ?thesis by (auto simp: upd split: if_splits)
  next
    case (WFE_parked k)
    with p show ?thesis by simp
  next
    case (WFE_relock k)
    with t p i ok show ?thesis by (auto simp: upd lock_def split: if_splits)
  next
    case (WFE_unlock k)
    with t p i ok cs show ?thesis by (auto simp: upd split: if_splits)
  next
    case (Done r)
    with p show ?thesis by simp
  qed
qed

lemma bridge_inv_bounds:
  assumes "bridge_inv s"
  shows "cnt is_bridge (goroutines s) \<le> 1" 
    and "cnt listening (goroutines s) + cnt after_stop (goroutines s) \<le> 1"
    and "cnt notified (chans s) \<le> 1" and "length (chans s) \<le> 1"
proof -
  let ?g = "goroutines s"
  note f = go_set_cs [of ?g] cnt_nonneg [of at_go ?g] cnt_nonneg [of at_set ?g]
    cnt_nonneg [of premake ?g] cnt_nonneg [of at_notify ?g]
    cnt_nonneg [of listening ?g] cnt_nonneg [of after_stop ?g]
  from assms f show "cnt is_bridge ?g \<le> 1"
    by (auto simp: bridge_inv_def bridge_parts split: if_splits)
  from assms f show "cnt listening ?g + cnt after_stop ?g \<le> 1"
    by (auto simp: bridge_inv_def split: if_splits)
  from assms f show "cnt notified (chans s) \<le> 1"
    by (auto simp: bridge_inv_def split: if_splits)
  from assms f show "length (chans s) \<le> 1"
    by (auto simp: bridge_inv_def split: if_splits)
qed


lemma child_init: "list_all is_entry gs \<Longrightarrow> child_inv (init_state gs)"
proof -
  assume a: "list_all is_entry gs"
  have z: "\<And>P. (\<And>p::'a pc. is_entry p \<Longrightarrow> \<not> P p) \<Longrightarrow> cnt P gs = 0"
    using a by (intro cnt_zero) (auto simp: list_all_iff)
  have "cnt at_recv gs = 0" by (rule z) (erule is_entry.elims; simp)
  moreover have "cnt at_bgo gs = 0" by (rule z) (erule is_entry.elims; simp)
  ultimately show ?thesis using cnt_nonneg [of listening gs] cnt_nonneg [of after_stop gs]
    by (simp add: child_inv_def)
qed

lemma child_step_pc:
  assumes t: "t < length (goroutines s)" and p: "step_pc t (goroutines s ! t) s = Some s'"
    and x: "index_inv s" and i: "child_inv s"
  shows "child_inv s'"
proof -
  note pos = cnt_pos [OF t, of at_recv] cnt_pos [OF t, of at_bgo] cnt_pos [OF t, of listening]
  show ?thesis
  proof (cases "\<exists>k. goroutines s ! t = ER_index k")
    case True
    then obtain k where k: "goroutines s ! t = ER_index k" by blast
    from index_nonempty [OF x t k] obtain e es where "exitReasons s = e # es" by blast
    with k t p i pos show ?thesis
      by (auto simp: child_inv_def cnt_update)
  next
    case False
    with t p i pos show ?thesis
      by (cases "goroutines s ! t")
        (auto simp: child_inv_def cnt_update cnt_map lock_def nth_append split: if_splits)
  qed
qed

lemma reach_inv_init: "list_all is_entry gs \<Longrightarrow> reach_inv (init_state gs)"
proof -
  assume a: "list_all is_entry gs"
  have "is_entry p \<Longrightarrow> \<not> past_len1 p" for p :: "'a pc"
    by (erule is_entry.elims; simp)
  with a have "cnt past_len1 gs = 0"
    by (intro cnt_zero) (auto simp: list_all_iff)
  with bridge_inv_init [OF a] child_init [OF a] show ?thesis
    by (simp add: reach_inv_def index_inv_def)
qed

lemma reach_inv_step: "step e s = Some s' \<Longrightarrow> reach_inv s \<Longrightarrow> reach_inv s'"
proof (cases e)
  case (Run t)
  assume a: "step e s = Some s'" and i: "reach_inv s"
  from a Run have "step (Run t) s = Some s'" by simp
  from step_Run_pc [OF this]
  have t: "t < length (goroutines s)" and p: "step_pc t (goroutines s ! t) s = Some s'"
    by simp_all
  from i have b: "bridge_inv s" and x: "index_inv s" and c: "child_inv s"
    by (simp_all add: reach_inv_def)
  from bridge_inv_step_pc [OF t p b x] index_inv_step_pc [OF t p x] child_step_pc [OF t p x c]
  show ?thesis by (simp add: reach_inv_def)
next
  case Interrupt
  assume "step e s = Some s'" "reach_inv s"
  with Interrupt show ?thesis
    by (auto simp: reach_inv_def bridge_inv_interrupt split: if_splits)
      (auto simp: index_inv_def child_inv_def interrupt_def split: if_splits)
qed

lemma reach_inv_run: "run evs s = Some s' \<Longrightarrow> reach_inv s \<Longrightarrow> reach_inv s'"
proof (induction evs arbitrary: s)
  case Nil
  then show ?case by simp
next
  case (Cons e evs)
  then show ?case by (auto split: option.splits dest: reach_inv_step)
qed

lemma after_stop_step_pc:
  assumes t: "t < length (goroutines s)" and p: "step_pc t (goroutines s ! t) s = Some s'"
    and i: "1 \<le> cnt after_stop (goroutines s)"
  shows "1 \<le> cnt after_stop (goroutines s')"
  using t p i cnt_pos [OF t, of after_stop] cnt_nonneg [of after_stop "goroutines s"]
  by (cases "goroutines s ! t")
    (auto simp: cnt_update cnt_map lock_def nth_append split: if_splits list.splits)

lemma after_stop_step:
  "step e s = Some s' \<Longrightarrow> 1 \<le> cnt after_stop (goroutines s) \<Longrightarrow>
   1 \<le> cnt after_stop (goroutines s')"
proof (cases e)
  case (Run t)
  assume a: "step e s = Some s'" and i: "1 \<le> cnt after_stop (goroutines s)"
  from a Run have "step (Run t) s = Some s'" by simp
  from step_Run_pc [OF this] i show ?thesis by (blast intro: after_stop_step_pc)
next
  case Interrupt
  assume "step e s = Some s'" "1 \<le> cnt after_stop (goroutines s)"
  with Interrupt show ?thesis by (auto simp: interrupt_def split: if_splits)
qed

lemma after_stop_run:
  "run evs s = Some s' \<Longrightarrow> 1 \<le> cnt after_stop (goroutines s) \<Longrightarrow>
   1 \<le> cnt after_stop (goroutines s')"
proof (induction evs arbitrary: s)
  case Nil
  then show ?case by simp
next
  case (Cons e evs)
  then show ?case by (auto split: option.splits dest: after_stop_step)
qed

lemma torn_down_default:
  assumes i: "bridge_inv s" and a: "list_ex after_stop (goroutines s)" and k: "\<not> killed s"
  shows "step Interrupt s = Some (s\<lparr>killed := True\<rparr>)"
proof -
  from a have "1 \<le> cnt after_stop (goroutines s)" by (simp add: cnt_ge1_iff)
  with bridge_inv_bounds(2) [OF i] cnt_nonneg [of listening "goroutines s"]
  have "cnt listening (goroutines s) = 0" by simp
  with i have "cnt notified (chans s) = 0" by (simp add: bridge_inv_def)
  then have "\<not> list_ex notified (chans s)" by (simp add: cnt_zero_iff)
  with k show ?thesis by (simp add: interrupt_def)
qed

lemma first_interrupt_signals:
  assumes "\<not> killed s" "t < length (goroutines s)" "goroutines s ! t = C_recv c"
    "c < length (chans s)" "notified (chans s ! c)" "buf (chans s ! c) = 0"
  shows "\<exists>s'. run [Interrupt, Run t, Run t, Run t] s = Some s' \<and> shouldExit s' \<and>
           goroutines s' ! t = Done RUnit \<and> \<not> killed s'"
proof -
  from assms cnt_pos [of c "chans s" notified] have ex: "list_ex notified (chans s)"
    by (simp add: cnt_ge1_iff)
  from assms have d: "buf (map deliver (chans s) ! c) = 1"
    by (simp add: deliver_def)
  from assms ex d show ?thesis
    by (simp add: interrupt_def)
qed

section \<open>The claims\<close>

text \<open>
  C1. The claim: in every interleaving, a waiter that calls \<^verbatim>\<open>WaitForExit\<close> before a
  signalling call and one that calls it after both return once a signalling call has
  completed, because the flag is written and the broadcast made under the mutex that
  guards the waiter's check and suspension.

  The code does not do this. \<^verbatim>\<open>ExitWithoutError\<close> (lines 49 and 50) stores the flag and
  broadcasts without taking the mutex, so both can fall between the waiter's load of the
  flag (line 120) and its call of \<^verbatim>\<open>Wait\<close> (line 121). In the schedule below goroutine 0
  is the waiter and goroutine 1 the caller of \<^verbatim>\<open>ExitWithoutError\<close>: the waiter locks and
  reads the flag as unset, the signaller stores the flag and broadcasts to nobody and
  returns, and the waiter then suspends. The flag is set, the signalling call has
  completed, and neither goroutine can take another step: the waiter never returns.
\<close>

theorem WaitForExit_lost_wakeup:
  "run [Run 0, Run 0, Run 1, Run 1, Run 0] (init_state [WFE_lock ToCaller, EWO_store])
     = Some \<lparr>shouldExit = True, exitReasons = ([] :: nat error list),
         signalAlreadyHandled = False, mutex = None,
         goroutines = [WFE_parked ToCaller, Done RUnit], chans = [], killed = False\<rparr> \<and>
   run [Run 0, Run 0, Run 1, Run 1, Run 0, Run 0]
     (init_state [WFE_lock ToCaller, EWO_store] :: nat state) = None \<and>
   run [Run 0, Run 0, Run 1, Run 1, Run 0, Run 1]
     (init_state [WFE_lock ToCaller, EWO_store] :: nat state) = None"
  by (simp add: lock_def init_state_def goto_def unlock_def Broadcast_def)

text \<open>
  The same race inside the bridge: the bridge routine (goroutine 1) has read the flag as
  unset when the interrupt arrives; the child routine (goroutine 2) receives it, stores the
  flag, broadcasts to nobody and returns; the bridge routine then suspends. It never reaches
  \<^verbatim>\<open>signal.Stop\<close>, and the channel stays registered.
\<close>

lemma bridge_lost_wakeup:
  "run [Run 0, Run 0, Run 0, Run 0, Run 0, Run 1, Run 1, Run 1, Run 1, Run 1,
        Interrupt, Run 2, Run 2, Run 2, Run 1] (init_state [EOI_lock])
     = Some \<lparr>shouldExit = True, exitReasons = ([] :: nat error list),
         signalAlreadyHandled = True, mutex = None,
         goroutines = [Done RUnit, WFE_parked (ToBridge 0), Done RUnit],
         chans = [\<lparr>buf = 0, closed = False, notified = True\<rparr>], killed = False\<rparr> \<and>
   run [Run 0, Run 0, Run 0, Run 0, Run 0, Run 1, Run 1, Run 1, Run 1, Run 1,
        Interrupt, Run 2, Run 2, Run 2, Run 1, Run 1] (init_state [EOI_lock] :: nat state)
     = None"
  by (simp add: lock_def init_state_def goto_def unlock_def interrupt_def new_chan_def
      deliver_def Broadcast_def)

text \<open>
  C2. The claim: \<^verbatim>\<open>ExitReason\<close> returns nil when the log is empty, the single entry
  itself when there is exactly one, and otherwise a composite error that preserves and
  reports all the reasons.

  The first two parts hold. With two or more entries the result is \<^verbatim>\<open>errors.Join\<close> of the
  log, which discards nil entries: it is nil when every entry is nil, and otherwise the
  composite of the non-nil entries in their order. When no entry is nil the composite holds
  the whole log.
\<close>

theorem ExitReason_cases:
  "(exitReasons s = [] \<longrightarrow> ExitReason s = ErrNil) \<and>
   (\<forall>e. exitReasons s = [e] \<longrightarrow> ExitReason s = e) \<and>
   (2 \<le> length (exitReasons s) \<longrightarrow>
      ExitReason s = (if list_all is_nil (exitReasons s) then ErrNil
                      else JoinError (filter (\<lambda>e. \<not> is_nil e) (exitReasons s)))) \<and>
   (2 \<le> length (exitReasons s) \<and> \<not> list_ex is_nil (exitReasons s) \<longrightarrow>
      ExitReason s = JoinError (exitReasons s) \<and> Unwrap (ExitReason s) = exitReasons s)"
proof -
  have a: "exitReasons s = [] \<longrightarrow> ExitReason s = ErrNil"
    by (simp add: ExitReason_def)
  have b: "\<forall>e. exitReasons s = [e] \<longrightarrow> ExitReason s = e"
    by (simp add: ExitReason_def)
  have c: "2 \<le> length (exitReasons s) \<longrightarrow>
      ExitReason s = (if list_all is_nil (exitReasons s) then ErrNil
                      else JoinError (filter (\<lambda>e. \<not> is_nil e) (exitReasons s)))"
    by (simp add: ExitReason_def errors_Join_eq)
  have d: "2 \<le> length (exitReasons s) \<and> \<not> list_ex is_nil (exitReasons s) \<longrightarrow>
      ExitReason s = JoinError (exitReasons s) \<and> Unwrap (ExitReason s) = exitReasons s"
  proof (intro impI, elim conjE)
    assume l: "2 \<le> length (exitReasons s)" and n: "\<not> list_ex is_nil (exitReasons s)"
    from l have ne: "exitReasons s \<noteq> []" by auto
    from n ne have "\<not> list_all is_nil (exitReasons s)"
      by (cases "exitReasons s") (auto simp: list_ex_iff list_all_iff)
    with c l n show "ExitReason s = JoinError (exitReasons s) \<and> Unwrap (ExitReason s) = exitReasons s"
      by (simp add: filter_not_nil_id)
  qed
  from a b c d show ?thesis by blast
qed

theorem ExitReason_cases_witness:
  "exitReasons (init_state [] :: nat state) = [] \<and>
   ExitReason (init_state [] :: nat state) = ErrNil \<and>
   exitReasons (ExitWithError (Err 1) (init_state [] :: nat state)) = [Err 1] \<and>
   ExitReason (ExitWithError (Err 1) (init_state [] :: nat state)) = Err 1 \<and>
   2 \<le> length (exitReasons (ExitWithError (Err 2) (ExitWithError (Err 1) (init_state [] :: nat state)))) \<and>
   \<not> list_ex is_nil (exitReasons (ExitWithError (Err 2) (ExitWithError (Err 1) (init_state [] :: nat state)))) \<and>
   ExitReason (ExitWithError (Err 2) (ExitWithError (Err 1) (init_state [] :: nat state)))
     = JoinError [Err 1, Err 2] \<and>
   Unwrap (ExitReason (ExitWithError (Err 2) (ExitWithError (Err 1) (init_state [] :: nat state))))
     = [Err 1, Err 2]"
  using ExitReason_cases [of "init_state [] :: nat state"]
    ExitReason_cases [of "ExitWithError (Err 1) (init_state [] :: nat state)"]
    ExitReason_cases [of "ExitWithError (Err 2) (ExitWithError (Err 1) (init_state [] :: nat state))"]
  by simp

text \<open>
  C2, the claim as stated fails: after two calls of \<^verbatim>\<open>ExitWithError(nil)\<close> the log has
  two entries and \<^verbatim>\<open>ExitReason\<close> returns nil, not a composite.
\<close>

theorem ExitReason_all_nil_counterexample:
  "length (exitReasons (ExitWithError ErrNil (ExitWithError ErrNil (init_state [] :: nat state)))) = 2 \<and>
   ExitReason (ExitWithError ErrNil (ExitWithError ErrNil (init_state [] :: nat state))) = ErrNil"
  by (simp add: ExitReason_def errors_Join_def)




text \<open>
  C4. The exit flag is monotonic. Once the flag is set it is set in every state reached by
  any interleaving of the atomic actions of any calls and of interrupts, so a
  \<^verbatim>\<open>ShouldExit\<close> made there returns true; and every sequence of calls made one after
  another from a state with the flag set runs to its end and leaves the flag set.
\<close>

theorem shouldExit_monotonic:
  assumes "shouldExit s" and "run evs s = Some s'"
  shows "shouldExit s' \<and> step_pc t SE_load s' = Some (goto t (Done (RBool True)) s') \<and>
         (\<exists>s''. execs cs s = Some s'' \<and> ShouldExit s'')"
proof -
  from run_flag [OF assms(2,1)] have f: "shouldExit s'" .
  from execs_total [OF assms(1)] obtain s'' where "execs cs s = Some s''" "shouldExit s''" by blast
  with f show ?thesis by (auto simp: ShouldExit_def)
qed

theorem shouldExit_monotonic_witness:
  "shouldExit (ExitWithoutError (init_state [EOI_lock, SE_load]) :: nat state) \<and>
   run [Run 0, Run 0] (ExitWithoutError (init_state [EOI_lock, SE_load]))
     = Some \<lparr>shouldExit = True, exitReasons = ([] :: nat error list),
         signalAlreadyHandled = False, mutex = Some 0,
         goroutines = [EOI_go, SE_load], chans = [], killed = False\<rparr> \<and>
   step_pc 1 SE_load \<lparr>shouldExit = True, exitReasons = ([] :: nat error list),
         signalAlreadyHandled = False, mutex = Some 0,
         goroutines = [EOI_go, SE_load], chans = [], killed = False\<rparr>
     = Some \<lparr>shouldExit = True, exitReasons = ([] :: nat error list),
         signalAlreadyHandled = False, mutex = Some 0,
         goroutines = [EOI_go, Done (RBool True)], chans = [], killed = False\<rparr>"
  using shouldExit_monotonic [of "ExitWithoutError (init_state [EOI_lock, SE_load]) :: nat state"
      "[Run 0, Run 0]"
      "\<lparr>shouldExit = True, exitReasons = ([] :: nat error list),
         signalAlreadyHandled = False, mutex = Some 0,
         goroutines = [EOI_go, SE_load], chans = [], killed = False\<rparr>" 1 "[]"]
  by (simp add: lock_def init_state_def goto_def ExitWithoutError_def Broadcast_def)

text \<open>
  C5. \<^verbatim>\<open>ExitWithoutError\<close> never modifies the reason log: the call as a whole and each of
  its two atomic actions leave \<^verbatim>\<open>exitReasons\<close> as it was, in every state, so the result
  of \<^verbatim>\<open>ExitReason\<close> is unchanged; after \<^verbatim>\<open>ExitWithError\<close> with the reason "disk full"
  and then \<^verbatim>\<open>ExitWithoutError\<close>, \<^verbatim>\<open>WaitForExit\<close> returns that reason.
\<close>

theorem ExitWithoutError_keeps_reasons:
  "exitReasons (ExitWithoutError s) = exitReasons s \<and>
   ExitReason (ExitWithoutError s) = ExitReason s \<and>
   map_option exitReasons (step_pc t EWO_store s) = Some (exitReasons s) \<and>
   map_option exitReasons (step_pc t EWO_broadcast s) = Some (exitReasons s) \<and>
   WaitForExit (ExitWithoutError (ExitWithError (Err ''disk full'') (init_state gs)))
     = Some (Err ''disk full'')"
  by (simp add: ExitReason_def WaitForExit_def)

text \<open>
  C6. Once the exit flag is set, \<^verbatim>\<open>WaitForExit\<close> returns without suspending: run from a
  state with the mutex free it reaches its return in six actions (seven when the log has
  one entry), none of them \<^verbatim>\<open>Wait\<close>, and its result is \<^verbatim>\<open>ExitReason\<close> of that state;
  and however its actions are interleaved with those of other goroutines and with
  interrupts, it never reaches the suspension of line 121. Any calls other than
  \<^verbatim>\<open>ExitWithError\<close> made in between (further calls of \<^verbatim>\<open>WaitForExit\<close> among them) run
  to their end, and a call of \<^verbatim>\<open>WaitForExit\<close> after them returns the same result.
\<close>

theorem WaitForExit_after_exit:
  assumes "shouldExit s" and "list_all (\<lambda>c. \<not> signals_error c) cs"
  shows "WaitForExit s = Some (ExitReason s) \<and>
         (\<exists>s'. execs cs s = Some s' \<and> WaitForExit s' = WaitForExit s) \<and>
         (mutex s = None \<and> \<not> killed s \<and> t < length (goroutines s) \<and>
          goroutines s ! t = WFE_lock ToCaller \<longrightarrow>
            run (Run t # Run t # Run t # Run t # Run t # Run t #
                 (if length (exitReasons s) = 1 then [Run t] else [])) s
              = Some (goto t (Done (RError (ExitReason s))) s)) \<and>
         (t < length (goroutines s) \<and> goroutines s ! t = WFE_lock k \<and>
          run evs s = Some s1 \<longrightarrow>
            t < length (goroutines s1) \<and> returning (goroutines s1 ! t))"
proof -
  from assms(1) have a: "WaitForExit s = Some (ExitReason s)"
    by (simp add: WaitForExit_def)
  from execs_quiet [OF assms(2,1)] obtain s' where
    "execs cs s = Some s'" "shouldExit s'" "exitReasons s' = exitReasons s" by blast
  with assms(1) have b: "\<exists>s'. execs cs s = Some s' \<and> WaitForExit s' = WaitForExit s"
    by (auto simp: WaitForExit_def ExitReason_def)
  have c: "t < length (goroutines s) \<and> goroutines s ! t = WFE_lock k \<and>
          run evs s = Some s1 \<longrightarrow>
            t < length (goroutines s1) \<and> returning (goroutines s1 ! t)"
    using run_returning [of evs s s1 t] assms(1) by simp
  from a b c solo_WaitForExit_flagged [of s t] assms(1) show ?thesis by blast
qed

theorem WaitForExit_after_exit_witness:
  "shouldExit (ExitWithError (Err 2) (ExitWithError (Err 1)
     (init_state [WFE_lock ToCaller, EWE_lock (Err 3)])) :: nat state) \<and>
   list_all (\<lambda>c. \<not> signals_error c)
     [CWaitForExit, CExitWithoutError, CExitOnInterrupt, CShouldExit, CExitReason :: nat call] \<and>
   mutex (ExitWithError (Err 2) (ExitWithError (Err 1)
     (init_state [WFE_lock ToCaller, EWE_lock (Err 3)])) :: nat state) = None \<and>
   \<not> killed (ExitWithError (Err 2) (ExitWithError (Err 1)
     (init_state [WFE_lock ToCaller, EWE_lock (Err 3)])) :: nat state) \<and>
   goroutines (ExitWithError (Err 2) (ExitWithError (Err 1)
     (init_state [WFE_lock ToCaller, EWE_lock (Err 3)])) :: nat state)
     = [WFE_lock ToCaller, EWE_lock (Err 3)] \<and>
   WaitForExit (ExitWithError (Err 2) (ExitWithError (Err 1)
     (init_state [WFE_lock ToCaller, EWE_lock (Err 3)])))
     = Some (JoinError [Err 1, Err (2::nat)]) \<and>
   run [Run 0, Run 0, Run 0, Run 0, Run 0, Run 0]
     (ExitWithError (Err 2) (ExitWithError (Err 1)
       (init_state [WFE_lock ToCaller, EWE_lock (Err 3)])))
     = Some \<lparr>shouldExit = True, exitReasons = [Err 1, Err (2::nat)],
         signalAlreadyHandled = False, mutex = None,
         goroutines = [Done (RError (JoinError [Err 1, Err 2])), EWE_lock (Err 3)],
         chans = [], killed = False\<rparr> \<and>
   run [Run 0, Run 0, Run 0, Run 1, Run 1, Run 1, Run 0, Run 0]
     (ExitWithError (Err 2) (ExitWithError (Err 1)
       (init_state [WFE_lock ToCaller, EWE_lock (Err 3)])))
     = Some \<lparr>shouldExit = True, exitReasons = [Err 1, Err 2, Err (3::nat)],
         signalAlreadyHandled = False, mutex = Some 0,
         goroutines = [ER_unlock (JoinError [Err 1, Err 2, Err 3]) ToCaller, EWO_store],
         chans = [], killed = False\<rparr> \<and>
   returning (ER_unlock (JoinError [Err 1, Err 2, Err (3::nat)]) ToCaller)"
  using WaitForExit_after_exit [of
      "ExitWithError (Err 2) (ExitWithError (Err 1)
         (init_state [WFE_lock ToCaller, EWE_lock (Err 3)])) :: nat state"
      "[CWaitForExit, CExitWithoutError, CExitOnInterrupt, CShouldExit, CExitReason]" 0
      ToCaller "[Run 0, Run 0, Run 0, Run 1, Run 1, Run 1, Run 0, Run 0]"
      "\<lparr>shouldExit = True, exitReasons = [Err 1, Err 2, Err (3::nat)],
         signalAlreadyHandled = False, mutex = Some 0,
         goroutines = [ER_unlock (JoinError [Err 1, Err 2, Err 3]) ToCaller, EWO_store],
         chans = [], killed = False\<rparr>"]
  by (simp add: init_state_def goto_def lock_def unlock_def ExitWithError_def
      ExitWithoutError_def Broadcast_def ExitReason_def WaitForExit_def errors_Join_def)




text \<open>
  C8. The claim: after the bridge is installed the first interrupt triggers
  \<^verbatim>\<open>ExitWithoutError\<close>, then the bridge removes its listener, so that any interrupt after
  the first gets the default handling.

  What holds: once the listener is registered and the child routine waits on the channel, an
  interrupt is relayed to the channel and the child routine then sets the flag and
  broadcasts. Once the bridge routine has run \<^verbatim>\<open>signal.Stop\<close> (line 86), in every state
  reached afterwards no channel is registered, and an interrupt gets the default handling.
\<close>

theorem interrupt_after_teardown:
  assumes "list_all is_entry gs" and "run evs (init_state gs) = Some s"
    and "list_ex after_stop (goroutines s)" and "run evs' s = Some s'" and "\<not> killed s'"
  shows "step Interrupt s' = Some (s'\<lparr>killed := True\<rparr>) \<and>
         \<not> list_ex notified (chans s') \<and>
         (\<not> killed s0 \<and> t < length (goroutines s0) \<and> goroutines s0 ! t = C_recv c \<and>
          c < length (chans s0) \<and> notified (chans s0 ! c) \<and> buf (chans s0 ! c) = 0 \<longrightarrow>
            (\<exists>s1. run [Interrupt, Run t, Run t, Run t] s0 = Some s1 \<and> shouldExit s1 \<and>
               goroutines s1 ! t = Done RUnit \<and> \<not> killed s1))"
proof -
  from reach_inv_run [OF assms(2) reach_inv_init [OF assms(1)]] have "reach_inv s" .
  from reach_inv_run [OF assms(4) this] have i: "bridge_inv s'" by (simp add: reach_inv_def)
  from assms(3) have "1 \<le> cnt after_stop (goroutines s)" by (simp add: cnt_ge1_iff)
  from after_stop_run [OF assms(4) this] have a: "list_ex after_stop (goroutines s')"
    by (simp add: cnt_ge1_iff)
  from torn_down_default [OF i a assms(5)]
  have 1: "step Interrupt s' = Some (s'\<lparr>killed := True\<rparr>)" .
  from a have "1 \<le> cnt after_stop (goroutines s')" by (simp add: cnt_ge1_iff)
  with bridge_inv_bounds(2) [OF i] cnt_nonneg [of listening "goroutines s'"] i
  have "cnt notified (chans s') = 0" by (simp add: bridge_inv_def)
  then have 2: "\<not> list_ex notified (chans s')" by (simp add: cnt_zero_iff)
  from 1 2 first_interrupt_signals [of s0 t c] show ?thesis by blast
qed

theorem interrupt_after_teardown_witness:
  "list_all is_entry [EOI_lock :: nat pc] \<and>
   run [Run 0, Run 0, Run 0, Run 0, Run 0, Run 1, Run 1, Run 1, Run 1, Run 1, Run 1,
        Interrupt, Run 2, Run 2, Run 2, Run 1, Run 1, Run 1, Run 1, Run 1, Run 1, Run 1]
     (init_state [EOI_lock])
     = Some \<lparr>shouldExit = True, exitReasons = ([] :: nat error list),
         signalAlreadyHandled = True, mutex = None,
         goroutines = [Done RUnit, B_close 0, Done RUnit],
         chans = [\<lparr>buf = 0, closed = False, notified = False\<rparr>], killed = False\<rparr> \<and>
   list_ex after_stop [Done RUnit, B_close 0, Done RUnit :: nat pc] \<and>
   run [Run 1] \<lparr>shouldExit = True, exitReasons = ([] :: nat error list),
         signalAlreadyHandled = True, mutex = None,
         goroutines = [Done RUnit, B_close 0, Done RUnit],
         chans = [\<lparr>buf = 0, closed = False, notified = False\<rparr>], killed = False\<rparr>
     = Some \<lparr>shouldExit = True, exitReasons = ([] :: nat error list),
         signalAlreadyHandled = True, mutex = None,
         goroutines = [Done RUnit, B_done, Done RUnit],
         chans = [\<lparr>buf = 0, closed = True, notified = False\<rparr>], killed = False\<rparr> \<and>
   step Interrupt \<lparr>shouldExit = True, exitReasons = ([] :: nat error list),
         signalAlreadyHandled = True, mutex = None,
         goroutines = [Done RUnit, B_done, Done RUnit],
         chans = [\<lparr>buf = 0, closed = True, notified = False\<rparr>], killed = False\<rparr>
     = Some \<lparr>shouldExit = True, exitReasons = ([] :: nat error list),
         signalAlreadyHandled = True, mutex = None,
         goroutines = [Done RUnit, B_done, Done RUnit],
         chans = [\<lparr>buf = 0, closed = True, notified = False\<rparr>], killed = True\<rparr> \<and>
   run [Interrupt, Run 2, Run 2, Run 2] \<lparr>shouldExit = False, exitReasons = ([] :: nat error list),
         signalAlreadyHandled = True, mutex = None,
         goroutines = [Done RUnit, WFE_parked (ToBridge 0), C_recv 0],
         chans = [\<lparr>buf = 0, closed = False, notified = True\<rparr>], killed = False\<rparr>
     = Some \<lparr>shouldExit = True, exitReasons = ([] :: nat error list),
         signalAlreadyHandled = True, mutex = None,
         goroutines = [Done RUnit, WFE_relock (ToBridge 0), Done RUnit],
         chans = [\<lparr>buf = 0, closed = False, notified = True\<rparr>], killed = False\<rparr>"
  using interrupt_after_teardown [of "[EOI_lock :: nat pc]"
      "[Run 0, Run 0, Run 0, Run 0, Run 0, Run 1, Run 1, Run 1, Run 1, Run 1, Run 1,
        Interrupt, Run 2, Run 2, Run 2, Run 1, Run 1, Run 1, Run 1, Run 1, Run 1, Run 1]"
      "\<lparr>shouldExit = True, exitReasons = ([] :: nat error list),
         signalAlreadyHandled = True, mutex = None,
         goroutines = [Done RUnit, B_close 0, Done RUnit],
         chans = [\<lparr>buf = 0, closed = False, notified = False\<rparr>], killed = False\<rparr>"
      "[Run 1]"
      "\<lparr>shouldExit = True, exitReasons = ([] :: nat error list),
         signalAlreadyHandled = True, mutex = None,
         goroutines = [Done RUnit, B_done, Done RUnit],
         chans = [\<lparr>buf = 0, closed = True, notified = False\<rparr>], killed = False\<rparr>"
      "\<lparr>shouldExit = False, exitReasons = ([] :: nat error list),
         signalAlreadyHandled = True, mutex = None,
         goroutines = [Done RUnit, WFE_parked (ToBridge 0), C_recv 0],
         chans = [\<lparr>buf = 0, closed = False, notified = True\<rparr>], killed = False\<rparr>"
      2 0]
  by (simp add: lock_def init_state_def goto_def unlock_def interrupt_def new_chan_def
      deliver_def Broadcast_def ExitReason_def)

text \<open>
  C8, the claim as stated fails: a second interrupt that arrives after the first has been
  received and \<^verbatim>\<open>ExitWithoutError\<close> has completed, but before the bridge routine has
  run \<^verbatim>\<open>signal.Stop\<close>, is relayed to the channel again; the process is not killed.
\<close>

theorem second_interrupt_absorbed_counterexample:
  "run [Run 0, Run 0, Run 0, Run 0, Run 0, Run 1, Run 1, Run 1, Run 1, Run 1, Run 1,
        Interrupt, Run 2, Run 2, Run 2, Interrupt] (init_state [EOI_lock])
     = Some \<lparr>shouldExit = True, exitReasons = ([] :: nat error list),
         signalAlreadyHandled = True, mutex = None,
         goroutines = [Done RUnit, WFE_relock (ToBridge 0), Done RUnit],
         chans = [\<lparr>buf = 1, closed = False, notified = True\<rparr>], killed = False\<rparr>"
  by (simp add: lock_def init_state_def goto_def unlock_def interrupt_def new_chan_def
      deliver_def Broadcast_def)

text \<open>
  C9. When the log is empty and the only signalling call is \<^verbatim>\<open>ExitWithError(nil)\<close>, the
  nil value is stored in the log and \<^verbatim>\<open>WaitForExit\<close> returns nil, which is also what it
  returns after \<^verbatim>\<open>ExitWithoutError\<close>: \<^verbatim>\<open>ShouldExit\<close>, \<^verbatim>\<open>ExitReason\<close> and
  \<^verbatim>\<open>WaitForExit\<close> do not tell the two apart, neither at once nor after any further calls
  that record no reason.
\<close>

theorem nil_reason_like_clean_exit:
  assumes "exitReasons s = []" and "list_all (\<lambda>c. \<not> signals_error c) cs"
  shows "exitReasons (ExitWithError ErrNil s) = [ErrNil] \<and>
         WaitForExit (ExitWithError ErrNil s) = Some ErrNil \<and>
         WaitForExit (ExitWithoutError s) = Some ErrNil \<and>
         ExitReason (ExitWithError ErrNil s) = ExitReason (ExitWithoutError s) \<and>
         ShouldExit (ExitWithError ErrNil s) = ShouldExit (ExitWithoutError s) \<and>
         (\<exists>s1 s2. execs cs (ExitWithError ErrNil s) = Some s1 \<and>
            execs cs (ExitWithoutError s) = Some s2 \<and>
            WaitForExit s1 = Some ErrNil \<and> WaitForExit s2 = Some ErrNil \<and>
            ExitReason s1 = ExitReason s2 \<and> ShouldExit s1 = ShouldExit s2)"
proof -
  from execs_quiet [OF assms(2), of "ExitWithError ErrNil s"] obtain s1 where
    1: "execs cs (ExitWithError ErrNil s) = Some s1" "shouldExit s1"
      "exitReasons s1 = exitReasons s @ [ErrNil]"
    by auto
  from execs_quiet [OF assms(2), of "ExitWithoutError s"] obtain s2 where
    2: "execs cs (ExitWithoutError s) = Some s2" "shouldExit s2"
      "exitReasons s2 = exitReasons s"
    by auto
  from 1 2 assms(1)
  have "WaitForExit s1 = Some ErrNil \<and> WaitForExit s2 = Some ErrNil \<and>
        ExitReason s1 = ExitReason s2 \<and> ShouldExit s1 = ShouldExit s2"
    by (simp add: WaitForExit_def ExitReason_def ShouldExit_def)
  with 1(1) 2(1)
  have b: "\<exists>s1 s2. execs cs (ExitWithError ErrNil s) = Some s1 \<and>
            execs cs (ExitWithoutError s) = Some s2 \<and>
            WaitForExit s1 = Some ErrNil \<and> WaitForExit s2 = Some ErrNil \<and>
            ExitReason s1 = ExitReason s2 \<and> ShouldExit s1 = ShouldExit s2"
    by blast
  from assms(1)
  have a: "exitReasons (ExitWithError ErrNil s) = [ErrNil] \<and>
         WaitForExit (ExitWithError ErrNil s) = Some ErrNil \<and>
         WaitForExit (ExitWithoutError s) = Some ErrNil \<and>
         ExitReason (ExitWithError ErrNil s) = ExitReason (ExitWithoutError s) \<and>
         ShouldExit (ExitWithError ErrNil s) = ShouldExit (ExitWithoutError s)"
    by (simp add: WaitForExit_def ExitReason_def ShouldExit_def)
  from a b show ?thesis by blast
qed

theorem nil_reason_like_clean_exit_witness:
  "exitReasons (init_state [] :: nat state) = [] \<and>
   list_all (\<lambda>c. \<not> signals_error c) [CExitWithoutError, CExitOnInterrupt :: nat call] \<and>
   exitReasons (ExitWithError ErrNil (init_state [] :: nat state)) = [ErrNil] \<and>
   WaitForExit (ExitWithError ErrNil (init_state [] :: nat state)) = Some ErrNil \<and>
   WaitForExit (ExitWithoutError (init_state [] :: nat state)) = Some ErrNil"
  using nil_reason_like_clean_exit [of "init_state [] :: nat state"
      "[CExitWithoutError, CExitOnInterrupt]"]
  by simp

text \<open>
  C10. \<^verbatim>\<open>ExitReason\<close> is a read: called in any state with the mutex free, whether or
  not the flag is set, it returns after three actions (four when the log has one entry) that
  change nothing but the caller's program counter, so the log and the flag are as before; it
  returns nil when the log is empty; and each of its atomic actions, wherever it is interleaved, leaves the log and the
  flag unchanged.
\<close>

theorem ExitReason_read_only:
  assumes "mutex s = None" and "\<not> killed s" and "t < length (goroutines s)"
    and "goroutines s ! t = ER_lock ToCaller"
  shows "run (Run t # Run t # Run t # (if length (exitReasons s) = 1 then [Run t] else [])) s
           = Some (goto t (Done (RError (ExitReason s))) s) \<and>
         exitReasons (goto t (Done (RError (ExitReason s))) s) = exitReasons s \<and>
         shouldExit (goto t (Done (RError (ExitReason s))) s) = shouldExit s \<and>
         (exitReasons s = [] \<longrightarrow> ExitReason s = ErrNil) \<and>
         (in_ER p \<and> step_pc u p s0 = Some s1 \<longrightarrow>
            exitReasons s1 = exitReasons s0 \<and> shouldExit s1 = shouldExit s0)"
proof -
  have "exitReasons s = [] \<longrightarrow> ExitReason s = ErrNil" by (simp add: ExitReason_def)
  with solo_ExitReason [OF assms] step_pc_ER_frame [of p u s0 s1] show ?thesis by simp
qed

theorem ExitReason_read_only_witness:
  "mutex (ExitWithoutError (init_state [ER_lock ToCaller]) :: nat state) = None \<and>
   \<not> killed (ExitWithoutError (init_state [ER_lock ToCaller]) :: nat state) \<and>
   goroutines (ExitWithoutError (init_state [ER_lock ToCaller]) :: nat state)
     = [ER_lock ToCaller] \<and>
   exitReasons (ExitWithoutError (init_state [ER_lock ToCaller]) :: nat state) = [] \<and>
   shouldExit (ExitWithoutError (init_state [ER_lock ToCaller]) :: nat state) \<and>
   in_ER (ER_read ToCaller :: nat pc) \<and>
   step_pc 0 (ER_read ToCaller) (init_state [ER_read ToCaller] :: nat state)
     = Some \<lparr>shouldExit = False, exitReasons = ([] :: nat error list),
         signalAlreadyHandled = False, mutex = None,
         goroutines = [ER_unlock ErrNil ToCaller], chans = [], killed = False\<rparr> \<and>
   run [Run 0, Run 0, Run 0] (ExitWithoutError (init_state [ER_lock ToCaller]))
     = Some \<lparr>shouldExit = True, exitReasons = ([] :: nat error list),
         signalAlreadyHandled = False, mutex = None,
         goroutines = [Done (RError ErrNil)], chans = [], killed = False\<rparr>"
  using ExitReason_read_only [of "ExitWithoutError (init_state [ER_lock ToCaller]) :: nat state" 0
      "ER_read ToCaller" 0 "init_state [ER_read ToCaller]"
      "\<lparr>shouldExit = False, exitReasons = ([] :: nat error list),
         signalAlreadyHandled = False, mutex = None,
         goroutines = [ER_unlock ErrNil ToCaller], chans = [], killed = False\<rparr>"]
  by (simp add: init_state_def goto_def ExitWithoutError_def Broadcast_def ExitReason_def)

end
